theory Spec2Isabelle
  imports Complex_Main "HOL-Library.Word"
begin

section \<open>Build configuration\<close>

text \<open>
  \<^verbatim>\<open>MIXING_STEPPERS\<close> (the spec's StepperCount N) and \<^verbatim>\<open>MIXING_VIRTUAL_TOOLS\<close> (ToolCount M)
  are compile-time constants of the firmware, defined in the configuration headers and
  not in \<^verbatim>\<open>M163-M165.cpp\<close>. They are parameters of every operation here. \<open>epsilon\<close> is the
  "small epsilon" of the normalizer (spec 4.1).
\<close>

record config =
  MIXING_STEPPERS :: nat
  MIXING_VIRTUAL_TOOLS :: nat
  epsilon :: real

section \<open>The G-code parser, at its boundary\<close>

text \<open>
  Modelled from the spec: the parser (\<^verbatim>\<open>parser.intval\<close>, \<^verbatim>\<open>parser.floatval\<close>,
  \<^verbatim>\<open>parser.seenval\<close>, \<^verbatim>\<open>parser.value_float\<close>, \<^verbatim>\<open>parser.seen_test\<close>) is the G-code
  tokenizing collaborator, outside \<^verbatim>\<open>M163-M165.cpp\<close>. A parsed command maps each letter
  to nothing (letter absent), to \<open>NoValue\<close> (letter given bare, as \<^verbatim>\<open>R\<close> is) or to a value
  with its integer and its float reading. \<open>seenval\<close> asks for a letter with a value,
  \<open>seen_test\<close> for the letter alone; \<open>intval\<close> and \<open>floatval\<close> fall back to a default
  when the letter has no value.
\<close>

datatype param = NoValue | Value int real

type_synonym parser = "char \<Rightarrow> param option"

definition seen_test :: "parser \<Rightarrow> char \<Rightarrow> bool" where
  "seen_test p c = (p c \<noteq> None)"

definition seenval :: "parser \<Rightarrow> char \<Rightarrow> bool" where
  "seenval p c = (case p c of Some (Value i f) \<Rightarrow> True | _ \<Rightarrow> False)"

definition intval :: "parser \<Rightarrow> char \<Rightarrow> int \<Rightarrow> int" where
  "intval p c dval = (case p c of Some (Value i f) \<Rightarrow> i | _ \<Rightarrow> dval)"

definition floatval :: "parser \<Rightarrow> char \<Rightarrow> real \<Rightarrow> real" where
  "floatval p c dval = (case p c of Some (Value i f) \<Rightarrow> f | _ \<Rightarrow> dval)"

text \<open>\<^verbatim>\<open>parser.value_float()\<close> right after a successful \<^verbatim>\<open>seenval(c)\<close>: the float reading
  of that letter's value.\<close>

definition value_float :: "parser \<Rightarrow> char \<Rightarrow> real" where
  "value_float p c = floatval p c 0"

section \<open>The mixing engine\<close>

text \<open>
  The global \<^verbatim>\<open>mixer\<close> object: the Collector buffer (\<^verbatim>\<open>mixer.collector\<close> in the source),
  the Virtual Tool Table (M rows of N ratios) and the Active Tool Selector.
\<close>

record mixer =
  collector :: "real list"
  tool_table :: "real list list"
  active_tool :: nat

text \<open>
  Modelled from the spec: \<^verbatim>\<open>mixer.set_collector\<close> is defined in the mixing feature, outside
  \<^verbatim>\<open>M163-M165.cpp\<close>. Spec 4.1, \<open>set_weight(index, value)\<close>: the index must be in [0,N),
  an out-of-range call is silently ignored, and the value is accepted as given.
\<close>

definition set_collector :: "config \<Rightarrow> int \<Rightarrow> real \<Rightarrow> mixer \<Rightarrow> mixer" where
  "set_collector cfg index v m =
     (if 0 \<le> index \<and> index < int (MIXING_STEPPERS cfg)
      then m\<lparr>collector := (collector m)[nat index := v]\<rparr>
      else m)"

text \<open>
  Modelled from the spec: \<^verbatim>\<open>mixer.normalize\<close> is defined in the mixing feature, outside
  \<^verbatim>\<open>M163-M165.cpp\<close>. Spec 4.1, \<open>commit(toolIndex)\<close>: sum the collector's weights; if the
  sum exceeds epsilon each entry of the target row becomes \<open>weight[i] / sum\<close>, otherwise
  the row is left unchanged; a tool index out of range is silently ignored; the collector
  is left as it is.
\<close>

definition mixer_normalize :: "config \<Rightarrow> int \<Rightarrow> mixer \<Rightarrow> mixer" where
  "mixer_normalize cfg tool_index m =
     (if 0 \<le> tool_index \<and> tool_index < int (MIXING_VIRTUAL_TOOLS cfg)
      then (let s = sum_list (collector m)
            in if epsilon cfg < s
               then m\<lparr>tool_table := (tool_table m)[nat tool_index := map (\<lambda>w. w / s) (collector m)]\<rparr>
               else m)
      else m)"

text \<open>
  Modelled from the spec: \<^verbatim>\<open>mixer.normalize()\<close> without an argument, defined outside
  \<^verbatim>\<open>M163-M165.cpp\<close> like the one above, commits to the active tool (spec 4.1:
  \<open>commit(toolIndex = ActiveTool)\<close>).
\<close>

definition normalize_active :: "config \<Rightarrow> mixer \<Rightarrow> mixer" where
  "normalize_active cfg m = mixer_normalize cfg (int (active_tool m)) m"

section \<open>M163 and M164\<close>

text \<open>
  \<^verbatim>\<open>GcodeSuite::M163\<close>. The one-argument calls \<^verbatim>\<open>parser.intval('S')\<close> and
  \<^verbatim>\<open>parser.floatval('P')\<close> fall back to defaults that the parser declares, outside
  \<^verbatim>\<open>M163-M165.cpp\<close>; neither this file nor the spec gives them, so they are the
  parameters \<open>dS\<close> and \<open>dP\<close>.
\<close>

definition M163 :: "config \<Rightarrow> int \<Rightarrow> real \<Rightarrow> parser \<Rightarrow> mixer \<Rightarrow> mixer" where
  "M163 cfg dS dP p m =
     (let mix_index = intval p CHR ''S'' dS
      in if mix_index < int (MIXING_STEPPERS cfg)
         then set_collector cfg mix_index (floatval p CHR ''P'' dP) m
         else m)"

text \<open>
  \<^verbatim>\<open>GcodeSuite::M164\<close>. With more than one virtual tool the index is read from \<^verbatim>\<open>S\<close>
  with default \<open>-1\<close>; otherwise it is the constant 0.
\<close>

definition M164 :: "config \<Rightarrow> parser \<Rightarrow> mixer \<Rightarrow> mixer" where
  "M164 cfg p m =
     (let tool_index = (if MIXING_VIRTUAL_TOOLS cfg > 1 then intval p CHR ''S'' (- 1) else 0)
      in if tool_index \<ge> 0
         then (if tool_index < int (MIXING_VIRTUAL_TOOLS cfg) then mixer_normalize cfg tool_index m else m)
         else normalize_active cfg m)"

section \<open>M165 and its report\<close>

text \<open>
  Modelled from the spec: the macros \<^verbatim>\<open>LIST_N\<close>, \<^verbatim>\<open>SBI\<close>, \<^verbatim>\<open>TEST\<close>,
  \<^verbatim>\<open>MIXER_STEPPER_LOOP\<close> and \<^verbatim>\<open>VTOOLS_LOOP\<close> are defined in the firmware's headers, outside
  \<^verbatim>\<open>M163-M165.cpp\<close>. They do what spec 6 has M165 and its report do: the letters are
  mapped positionally to the steppers 0..N-1 (\<^verbatim>\<open>LIST_N(n, ...)\<close> keeps the first \<open>n\<close>
  arguments), the two loop macros visit every stepper 0..N-1 and every tool 0..M-1 in order, and
  bit \<open>b\<close> of the \<^verbatim>\<open>uint8_t mix_bits\<close>, set by \<^verbatim>\<open>SBI(w, b)\<close> and read by \<^verbatim>\<open>TEST(w, b)\<close>,
  records that letter \<open>b\<close> was given.
\<close>

definition LIST_N :: "nat \<Rightarrow> 'a list \<Rightarrow> 'a list" where
  "LIST_N n xs = take n xs"

definition SBI :: "8 word \<Rightarrow> nat \<Rightarrow> 8 word" where
  "SBI w b = or w (push_bit b 1)"

definition TEST :: "8 word \<Rightarrow> nat \<Rightarrow> bool" where
  "TEST w b = (and w (push_bit b 1) \<noteq> 0)"

definition mixing_codes :: "config \<Rightarrow> char list" where
  "mixing_codes cfg =
     LIST_N (MIXING_STEPPERS cfg)
       [CHR ''A'', CHR ''B'', CHR ''C'', CHR ''D'', CHR ''H'', CHR ''I'', CHR ''J'', CHR ''K'']"

text \<open>
  Modelled from the spec: \<^verbatim>\<open>mixer.refresh_collector(proportion, t)\<close> is defined in the mixing
  feature, outside \<^verbatim>\<open>M163-M165.cpp\<close>. Its values are those of spec 4.4
  (\<open>row(t)[i] * proportion\<close> for every stepper \<open>i\<close>); \<^verbatim>\<open>M165_report\<close> reads them back from
  \<^verbatim>\<open>mixer.collector\<close> right after the call, so the collector is where they are stored.
  A tool index out of range is dropped, as every out-of-range index is (spec 7).
\<close>

definition refresh_collector :: "config \<Rightarrow> real \<Rightarrow> nat \<Rightarrow> mixer \<Rightarrow> mixer" where
  "refresh_collector cfg proportion t m =
     (if t < MIXING_VIRTUAL_TOOLS cfg
      then m\<lparr>collector := map (\<lambda>i. tool_table m ! t ! i * proportion) [0..<MIXING_STEPPERS cfg]\<rparr>
      else m)"

text \<open>
  What the report hands to the serial writer, in order. \<open>Report_Heading_Etc forReplay\<close>
  stands for \<^verbatim>\<open>gcode.report_heading_etc(forReplay, F(STR_CURRENT_VTOOLS))\<close>, whose text is
  defined outside this file; \<open>Echo_Float x d\<close> is \<^verbatim>\<open>p_float_t(x, d)\<close>, the value \<open>x\<close> to be
  printed with \<open>d\<close> decimal places; \<open>Echo_Eol\<close> is the line end of \<^verbatim>\<open>SERIAL_ECHOLNPGM\<close>.
\<close>

datatype serial =
    Report_Heading_Etc bool
  | Echo_Str string
  | Echo_Int int
  | Echo_Float real nat
  | Echo_Eol

text \<open>The body of \<^verbatim>\<open>VTOOLS_LOOP(i)\<close> in \<^verbatim>\<open>GcodeSuite::M165_report\<close>.\<close>

definition report_vtool :: "config \<Rightarrow> nat \<Rightarrow> mixer \<times> serial list \<Rightarrow> mixer \<times> serial list" where
  "report_vtool cfg i st =
     (case st of (m, out) \<Rightarrow>
        (let m' = refresh_collector cfg 100 i m
         in (m', out
               @ [Echo_Str ''  V'', Echo_Int (int i), Echo_Str '':'']
               @ LIST_N (2 * MIXING_STEPPERS cfg)
                   [Echo_Str ''  A'', Echo_Float (collector m' ! 0) 1,
                    Echo_Str '' B'', Echo_Float (collector m' ! 1) 1,
                    Echo_Str '' C'', Echo_Float (collector m' ! 2) 1,
                    Echo_Str '' D'', Echo_Float (collector m' ! 3) 1,
                    Echo_Str '' H'', Echo_Float (collector m' ! 4) 1,
                    Echo_Str '' I'', Echo_Float (collector m' ! 5) 1,
                    Echo_Str '' J'', Echo_Float (collector m' ! 6) 1,
                    Echo_Str '' K'', Echo_Float (collector m' ! 7) 1]
               @ [Echo_Eol])))"

text \<open>\<^verbatim>\<open>GcodeSuite::M165_report\<close>: the heading, then one pass of the loop per virtual tool.\<close>

definition M165_report :: "config \<Rightarrow> bool \<Rightarrow> mixer \<Rightarrow> mixer \<times> serial list" where
  "M165_report cfg forReplay m =
     fold (report_vtool cfg) [0..<MIXING_VIRTUAL_TOOLS cfg] (m, [Report_Heading_Etc forReplay])"

text \<open>The body of the first \<^verbatim>\<open>MIXER_STEPPER_LOOP(i)\<close> of \<^verbatim>\<open>GcodeSuite::M165\<close>, on the pair
  of \<^verbatim>\<open>mix_bits\<close> and the mixer.\<close>

definition M165_read :: "config \<Rightarrow> parser \<Rightarrow> nat \<Rightarrow> 8 word \<times> mixer \<Rightarrow> 8 word \<times> mixer" where
  "M165_read cfg p i st =
     (case st of (mix_bits, m) \<Rightarrow>
        if seenval p (mixing_codes cfg ! i)
        then (SBI mix_bits i, set_collector cfg (int i) (value_float p (mixing_codes cfg ! i)) m)
        else (mix_bits, m))"

text \<open>The body of the second loop: clear the factors that were not given.\<close>

definition M165_clear :: "config \<Rightarrow> 8 word \<Rightarrow> nat \<Rightarrow> mixer \<Rightarrow> mixer" where
  "M165_clear cfg mix_bits i m =
     (if \<not> TEST mix_bits i then set_collector cfg (int i) 0 m else m)"

text \<open>The mixing part of \<^verbatim>\<open>GcodeSuite::M165\<close>, up to the report.\<close>

definition M165_mix :: "config \<Rightarrow> parser \<Rightarrow> mixer \<Rightarrow> mixer" where
  "M165_mix cfg p m =
     (case fold (M165_read cfg p) [0..<MIXING_STEPPERS cfg] (0, m) of (mix_bits, m1) \<Rightarrow>
        if mix_bits \<noteq> 0
        then normalize_active cfg (fold (M165_clear cfg mix_bits) [0..<MIXING_STEPPERS cfg] m1)
        else m1)"

text \<open>\<^verbatim>\<open>GcodeSuite::M165\<close>: the new mixer and what was sent to the serial writer. The
  report is called with its default argument, \<^verbatim>\<open>forReplay = true\<close>.\<close>

definition M165 :: "config \<Rightarrow> parser \<Rightarrow> mixer \<Rightarrow> mixer \<times> serial list" where
  "M165 cfg p m =
     (let m2 = M165_mix cfg p m
      in if seen_test p CHR ''R'' then M165_report cfg True m2 else (m2, []))"

text \<open>
  A mixer is well formed for a configuration when its arrays have the configured sizes:
  N collector entries, M rows of N ratios, and an active tool below M.
\<close>

definition mixer_wf :: "config \<Rightarrow> mixer \<Rightarrow> bool" where
  "mixer_wf cfg m =
     (length (collector m) = MIXING_STEPPERS cfg
      \<and> length (tool_table m) = MIXING_VIRTUAL_TOOLS cfg
      \<and> list_all (\<lambda>row. length row = MIXING_STEPPERS cfg) (tool_table m)
      \<and> active_tool m < MIXING_VIRTUAL_TOOLS cfg)"

text \<open>
  The report as the spec words it (section 6): one line per virtual tool, the label
  \<open>V<index>:\<close>, then for each stepper, in stepper order, its letter and the tool's ratio
  times 100 to be printed with one decimal place. \<open>spec_report_line cfg row i\<close> is the line
  of tool \<open>i\<close> whose row of ratios is \<open>row\<close>.
\<close>

definition spec_report_line :: "config \<Rightarrow> real list \<Rightarrow> nat \<Rightarrow> serial list" where
  "spec_report_line cfg row i =
     [Echo_Str ''  V'', Echo_Int (int i), Echo_Str '':'']
     @ concat (map (\<lambda>k. [Echo_Str ((if k = 0 then ''  '' else '' '') @ [''ABCDHIJK'' ! k]),
                           Echo_Float (row ! k * 100) 1])
                 [0..<MIXING_STEPPERS cfg])
     @ [Echo_Eol]"

text \<open>
  The weights an M165 command asks for, as the spec words them (section 6): the factor of
  each letter that is given, and 0 for each letter that is not.
\<close>

definition factor_weights :: "config \<Rightarrow> parser \<Rightarrow> real list" where
  "factor_weights cfg p =
     map (\<lambda>i. if seenval p (mixing_codes cfg ! i) then value_float p (mixing_codes cfg ! i) else 0)
       [0..<MIXING_STEPPERS cfg]"

section \<open>The Step Distributor\<close>

text \<open>
  Modelled from the spec: the step distributor is not in \<^verbatim>\<open>M163-M165.cpp\<close>. Spec 4.3:
  keep accumulators \<open>acc[0..N)\<close>, initially 0; on each step request add \<open>r[i]\<close> to every
  \<open>acc[i]\<close>, select \<open>j = argmax acc\<close> (ties broken by the lowest index), emit \<open>j\<close> and
  subtract 1 from \<open>acc[j]\<close>. Accumulators are the spec's signed reals.
\<close>

fun argmax :: "'a::linorder list \<Rightarrow> nat" where
  "argmax [] = 0"
| "argmax [x] = 0"
| "argmax (x # xs) = (let j = argmax xs in if xs ! j \<le> x then 0 else Suc j)"

definition next_stepper :: "real list \<Rightarrow> real list \<Rightarrow> nat \<times> real list" where
  "next_stepper r acc =
     (let acc1 = map2 (+) acc r; j = argmax acc1
      in (j, acc1[j := acc1 ! j - 1]))"

text \<open>\<open>K\<close> step requests in a row: the stepper indices emitted, in order, and the
  accumulators afterwards.\<close>

fun request_steps :: "real list \<Rightarrow> real list \<Rightarrow> nat \<Rightarrow> nat list \<times> real list" where
  "request_steps r acc 0 = ([], acc)"
| "request_steps r acc (Suc k) =
     (case next_stepper r acc of (j, acc1) \<Rightarrow>
        (case request_steps r acc1 k of (js, acc2) \<Rightarrow> (j # js, acc2)))"

text \<open>The distributor armed (all accumulators 0) and asked \<open>K\<close> times.\<close>

definition distribute :: "real list \<Rightarrow> nat \<Rightarrow> nat list" where
  "distribute r K = fst (request_steps r (replicate (length r) 0) K)"

definition delivered :: "real list \<Rightarrow> nat \<Rightarrow> nat \<Rightarrow> nat" where
  "delivered r K i = count_list (distribute r K) i"

text \<open>
  A proof device, not part of the engine: the distributor's accumulators for the ratio
  vector \<open>w / s\<close> of integer weights \<open>w\<close>, scaled by \<open>s\<close> so that they stay integers.
  \<open>scaled_steps_run\<close> below shows it to be the distributor's own run, and it lets a long
  run be evaluated.
\<close>

definition scaled_step :: "int list \<Rightarrow> int \<Rightarrow> int list \<Rightarrow> int list" where
  "scaled_step w s acc =
     (let acc1 = map2 (+) acc w; j = argmax acc1
      in acc1[j := acc1 ! j - s])"

fun scaled_steps :: "int list \<Rightarrow> int \<Rightarrow> nat \<Rightarrow> int list \<Rightarrow> int list" where
  "scaled_steps w s 0 acc = acc"
| "scaled_steps w s (Suc k) acc = scaled_steps w s k (scaled_step w s acc)"

text \<open>
  The invariant of the accumulators while one ratio vector \<open>r\<close> is in force: there is one
  accumulator per stepper, they sum to 0, and none is below \<open>1/N - 1\<close>.
\<close>

definition residual_inv :: "real list \<Rightarrow> real list \<Rightarrow> bool" where
  "residual_inv r acc =
     (length acc = length r \<and> sum_list acc = 0
      \<and> (\<forall>i<length r. 1 / real (length r) - 1 \<le> acc ! i))"

text \<open>The harmonic numbers \<open>1 + 1/2 + ... + 1/n\<close>, in which the bound on an accumulator
  is stated.\<close>

primrec harm :: "nat \<Rightarrow> real" where
  "harm 0 = 0"
| "harm (Suc n) = harm n + 1 / real (Suc n)"

section \<open>Claims about M163 and M164\<close>

text \<open>
  Claim C10. When the configured ToolCount M equals 1, M164 ignores the \<^verbatim>\<open>S\<close> parameter
  entirely and always commits the collector to tool 0, whatever \<^verbatim>\<open>S\<close> says.
\<close>

theorem M164_single_tool_commits_tool0:
  "MIXING_VIRTUAL_TOOLS cfg = 1 \<Longrightarrow> M164 cfg p m = mixer_normalize cfg 0 m"
  by (simp add: M164_def)

theorem M164_single_tool_commits_tool0_witness:
  "MIXING_VIRTUAL_TOOLS \<lparr>MIXING_STEPPERS = 2, MIXING_VIRTUAL_TOOLS = 1, epsilon = 0\<rparr> = 1
   \<and> tool_table (M164 \<lparr>MIXING_STEPPERS = 2, MIXING_VIRTUAL_TOOLS = 1, epsilon = 0\<rparr>
        ((\<lambda>c. None)(CHR ''S'' := Some (Value 5 5)))
        \<lparr>collector = [1, 3], tool_table = [[1/2, 1/2]], active_tool = 0\<rparr>)
     = [[1/4, 3/4]]"
  using M164_single_tool_commits_tool0
    [of "\<lparr>MIXING_STEPPERS = 2, MIXING_VIRTUAL_TOOLS = 1, epsilon = 0\<rparr>"
        "(\<lambda>c. None)(CHR ''S'' := Some (Value 5 5))"
        "\<lparr>collector = [1, 3], tool_table = [[1/2, 1/2]], active_tool = 0\<rparr>"]
  by (simp add: mixer_normalize_def)

text \<open>
  Claim C3. An M163 command whose \<^verbatim>\<open>S\<close> index is outside [0, N), negative indices
  included, is silently ignored: the whole mixer (every collector entry, every row of the
  tool table) is what it was. The guard of M163 itself stops an index of N or more; a
  negative index passes it and is dropped by \<open>set_collector\<close>. The parser's defaults play
  no part, since \<^verbatim>\<open>S\<close> is given.
\<close>

theorem M163_index_out_of_range_ignored:
  "p CHR ''S'' = Some (Value s f) \<Longrightarrow> s < 0 \<or> int (MIXING_STEPPERS cfg) \<le> s
   \<Longrightarrow> M163 cfg dS dP p m = m"
  by (auto simp: M163_def intval_def set_collector_def)

theorem M163_index_out_of_range_ignored_witness:
  "M163 \<lparr>MIXING_STEPPERS = 2, MIXING_VIRTUAL_TOOLS = 1, epsilon = 0\<rparr> 0 0
     ((\<lambda>c. None)(CHR ''S'' := Some (Value (- 1) (- 1)), CHR ''P'' := Some (Value 7 7)))
     \<lparr>collector = [1, 3], tool_table = [[1/2, 1/2]], active_tool = 0\<rparr>
   = \<lparr>collector = [1, 3], tool_table = [[1/2, 1/2]], active_tool = 0\<rparr>
   \<and> M163 \<lparr>MIXING_STEPPERS = 2, MIXING_VIRTUAL_TOOLS = 1, epsilon = 0\<rparr> 0 0
     ((\<lambda>c. None)(CHR ''S'' := Some (Value 2 2), CHR ''P'' := Some (Value 7 7)))
     \<lparr>collector = [1, 3], tool_table = [[1/2, 1/2]], active_tool = 0\<rparr>
   = \<lparr>collector = [1, 3], tool_table = [[1/2, 1/2]], active_tool = 0\<rparr>"
  using
    M163_index_out_of_range_ignored
      [of "(\<lambda>c. None)(CHR ''S'' := Some (Value (- 1) (- 1)), CHR ''P'' := Some (Value 7 7))"
          "- 1" "- 1" "\<lparr>MIXING_STEPPERS = 2, MIXING_VIRTUAL_TOOLS = 1, epsilon = 0\<rparr>" 0 0
          "\<lparr>collector = [1, 3], tool_table = [[1/2, 1/2]], active_tool = 0\<rparr>"]
    M163_index_out_of_range_ignored
      [of "(\<lambda>c. None)(CHR ''S'' := Some (Value 2 2), CHR ''P'' := Some (Value 7 7))"
          2 2 "\<lparr>MIXING_STEPPERS = 2, MIXING_VIRTUAL_TOOLS = 1, epsilon = 0\<rparr>" 0 0
          "\<lparr>collector = [1, 3], tool_table = [[1/2, 1/2]], active_tool = 0\<rparr>"]
  by simp

text \<open>
  Without \<^verbatim>\<open>S\<close>, M163 acts on the parser's default index \<open>dS\<close>, whatever the parser
  declares it to be: it sets that stepper's weight when \<open>dS\<close> is in [0, N) and does nothing
  otherwise.
\<close>

lemma M163_without_S:
  "p CHR ''S'' = None \<Longrightarrow>
   M163 cfg dS dP p m
   = (if 0 \<le> dS \<and> dS < int (MIXING_STEPPERS cfg)
      then m\<lparr>collector := (collector m)[nat dS := floatval p CHR ''P'' dP]\<rparr>
      else m)"
  by (simp add: M163_def intval_def set_collector_def)

text \<open>
  Claim C2, as stated: an M164 command with an explicit tool index outside [0, M) commits
  nothing, and in particular a negative index does not commit to the active tool. It fails
  twice. With two tools, \<^verbatim>\<open>M164 S-1\<close> takes the branch meant for an omitted \<^verbatim>\<open>S\<close> and
  commits the collector [1, 3] to the active tool 0; with one tool, \<^verbatim>\<open>S\<close> is not read at
  all and \<^verbatim>\<open>M164 S5\<close> commits to tool 0.
\<close>

theorem M164_index_out_of_range_counterexample:
  "tool_table (M164 \<lparr>MIXING_STEPPERS = 2, MIXING_VIRTUAL_TOOLS = 2, epsilon = 0\<rparr>
      ((\<lambda>c. None)(CHR ''S'' := Some (Value (- 1) (- 1))))
      \<lparr>collector = [1, 3], tool_table = [[1/2, 1/2], [1/2, 1/2]], active_tool = 0\<rparr>)
     = [[1/4, 3/4], [1/2, 1/2]]
   \<and> tool_table (M164 \<lparr>MIXING_STEPPERS = 2, MIXING_VIRTUAL_TOOLS = 1, epsilon = 0\<rparr>
      ((\<lambda>c. None)(CHR ''S'' := Some (Value 5 5)))
      \<lparr>collector = [1, 3], tool_table = [[1/2, 1/2]], active_tool = 0\<rparr>)
     = [[1/4, 3/4]]"
  by (simp add: M164_def intval_def normalize_active_def mixer_normalize_def)

text \<open>
  Claim C2, amended: with more than one virtual tool (M > 1), an M164 command with an
  explicit tool index of M or more commits nothing: the mixer, and so every row of the
  tool table, is what it was.
\<close>

theorem M164_index_too_large_ignored:
  "1 < MIXING_VIRTUAL_TOOLS cfg \<Longrightarrow> p CHR ''S'' = Some (Value s f)
   \<Longrightarrow> int (MIXING_VIRTUAL_TOOLS cfg) \<le> s \<Longrightarrow> M164 cfg p m = m"
  by (simp add: M164_def intval_def)

theorem M164_index_too_large_ignored_witness:
  "M164 \<lparr>MIXING_STEPPERS = 2, MIXING_VIRTUAL_TOOLS = 2, epsilon = 0\<rparr>
      ((\<lambda>c. None)(CHR ''S'' := Some (Value 2 2)))
      \<lparr>collector = [1, 3], tool_table = [[1/2, 1/2], [1/2, 1/2]], active_tool = 0\<rparr>
   = \<lparr>collector = [1, 3], tool_table = [[1/2, 1/2], [1/2, 1/2]], active_tool = 0\<rparr>"
  using M164_index_too_large_ignored
      [of "\<lparr>MIXING_STEPPERS = 2, MIXING_VIRTUAL_TOOLS = 2, epsilon = 0\<rparr>"
          "(\<lambda>c. None)(CHR ''S'' := Some (Value 2 2))" 2 2
          "\<lparr>collector = [1, 3], tool_table = [[1/2, 1/2], [1/2, 1/2]], active_tool = 0\<rparr>"]
  by simp

text \<open>
  Claim C5. When the collector's weights sum to at most epsilon, a commit to any tool
  returns the mixer as it was: the targeted row keeps its prior value, no quotient is
  formed and no all-zero row is written. The same holds for the commit made by any M164
  command.
\<close>

theorem commit_zero_sum_keeps_row:
  "sum_list (collector m) \<le> epsilon cfg
   \<Longrightarrow> mixer_normalize cfg t m = m \<and> M164 cfg p m = m"
  by (simp add: M164_def normalize_active_def mixer_normalize_def Let_def)

theorem commit_zero_sum_keeps_row_witness:
  "mixer_normalize \<lparr>MIXING_STEPPERS = 2, MIXING_VIRTUAL_TOOLS = 2, epsilon = 1/10000\<rparr> 1
      \<lparr>collector = [0, 0], tool_table = [[1/2, 1/2], [1/4, 3/4]], active_tool = 0\<rparr>
   = \<lparr>collector = [0, 0], tool_table = [[1/2, 1/2], [1/4, 3/4]], active_tool = 0\<rparr>"
  using commit_zero_sum_keeps_row
      [of "\<lparr>collector = [0, 0], tool_table = [[1/2, 1/2], [1/4, 3/4]], active_tool = 0\<rparr>"
          "\<lparr>MIXING_STEPPERS = 2, MIXING_VIRTUAL_TOOLS = 2, epsilon = 1/10000\<rparr>" 1]
  by simp

section \<open>The report and M165: auxiliary facts\<close>

lemma upt_2: "[0..<2] = [0, Suc 0]"
  by (simp add: numeral_2_eq_2)

lemma mixing_codes_2: "MIXING_STEPPERS cfg = 2 \<Longrightarrow> mixing_codes cfg = [CHR ''A'', CHR ''B'']"
  by (simp add: mixing_codes_def LIST_N_def)


lemma refresh_collector_frame:
  "tool_table (refresh_collector cfg pr t m) = tool_table m"
  "active_tool (refresh_collector cfg pr t m) = active_tool m"
  by (simp_all add: refresh_collector_def)

lemma report_vtool_fst: "fst (report_vtool cfg i (m, out)) = refresh_collector cfg 100 i m"
  by (simp add: report_vtool_def Let_def)

lemma report_loop_frame:
  "tool_table (fst (fold (report_vtool cfg) js st)) = tool_table (fst st)
   \<and> active_tool (fst (fold (report_vtool cfg) js st)) = active_tool (fst st)"
proof (induction js arbitrary: st)
  case Nil
  show ?case by simp
next
  case (Cons j js)
  obtain m out where st: "st = (m, out)" by (cases st)
  have "fst (report_vtool cfg j st) = refresh_collector cfg 100 j m"
    unfolding st by (rule report_vtool_fst)
  with Cons [of "report_vtool cfg j st"] show ?case
    by (simp add: st refresh_collector_frame)
qed

lemma report_loop_collector:
  assumes "k < MIXING_VIRTUAL_TOOLS cfg"
  shows "collector (fst (fold (report_vtool cfg) [0..<Suc k] st))
         = map (\<lambda>i. tool_table (fst st) ! k ! i * 100) [0..<MIXING_STEPPERS cfg]"
proof -
  obtain m1 out1 where f: "fold (report_vtool cfg) [0..<k] st = (m1, out1)"
    by (cases "fold (report_vtool cfg) [0..<k] st")
  have t: "tool_table m1 = tool_table (fst st)"
    using report_loop_frame [of cfg "[0..<k]" st] by (simp add: f)
  have "fst (fold (report_vtool cfg) [0..<Suc k] st) = refresh_collector cfg 100 k m1"
    by (simp add: f report_vtool_fst)
  then show ?thesis
    using assms by (simp add: refresh_collector_def t)
qed

lemma stepper_count_cases:
  "(n::nat) \<le> 8 \<Longrightarrow> n \<in> {0, 1, 2, 3, 4, 5, 6, 7, 8}"
  by auto

lemma report_items:
  assumes "n \<le> 8"
  shows "LIST_N (2 * n)
           [Echo_Str ''  A'', Echo_Float (map f [0..<n] ! 0) 1,
            Echo_Str '' B'', Echo_Float (map f [0..<n] ! 1) 1,
            Echo_Str '' C'', Echo_Float (map f [0..<n] ! 2) 1,
            Echo_Str '' D'', Echo_Float (map f [0..<n] ! 3) 1,
            Echo_Str '' H'', Echo_Float (map f [0..<n] ! 4) 1,
            Echo_Str '' I'', Echo_Float (map f [0..<n] ! 5) 1,
            Echo_Str '' J'', Echo_Float (map f [0..<n] ! 6) 1,
            Echo_Str '' K'', Echo_Float (map f [0..<n] ! 7) 1]
         = concat (map (\<lambda>k. [Echo_Str ((if k = 0 then ''  '' else '' '') @ [''ABCDHIJK'' ! k]),
                               Echo_Float (f k) 1]) [0..<n])"
  using stepper_count_cases [OF assms]
  by (elim insertE emptyE) (simp_all add: LIST_N_def eval_nat_numeral)


lemma report_vtool_output:
  assumes "MIXING_STEPPERS cfg \<le> 8" and "i < MIXING_VIRTUAL_TOOLS cfg"
  shows "snd (report_vtool cfg i (m, out)) = out @ spec_report_line cfg (tool_table m ! i) i"
proof -
  have c: "collector (refresh_collector cfg 100 i m)
           = map (\<lambda>k. tool_table m ! i ! k * 100) [0..<MIXING_STEPPERS cfg]"
    using assms(2) by (simp add: refresh_collector_def)
  show ?thesis
    unfolding report_vtool_def Let_def prod.case snd_conv c spec_report_line_def
    by (simp only: report_items [OF assms(1)] append_assoc)
qed

lemma report_loop_output:
  assumes "MIXING_STEPPERS cfg \<le> 8" and "\<forall>j\<in>set js. j < MIXING_VIRTUAL_TOOLS cfg"
  shows "snd (fold (report_vtool cfg) js (m, out))
         = out @ concat (map (\<lambda>i. spec_report_line cfg (tool_table m ! i) i) js)"
  using assms(2)
proof (induction js arbitrary: m out)
  case Nil
  show ?case by simp
next
  case (Cons j js)
  obtain m1 out1 where s: "report_vtool cfg j (m, out) = (m1, out1)"
    by (cases "report_vtool cfg j (m, out)")
  have t: "tool_table m1 = tool_table m"
    using report_vtool_fst [of cfg j m out] by (simp add: s refresh_collector_frame)
  have o: "out1 = out @ spec_report_line cfg (tool_table m ! j) j"
    using report_vtool_output [OF assms(1), of j m out] Cons.prems by (simp add: s)
  have "snd (fold (report_vtool cfg) js (m1, out1))
        = out1 @ concat (map (\<lambda>i. spec_report_line cfg (tool_table m1 ! i) i) js)"
    using Cons.IH [of m1 out1] Cons.prems by simp
  then show ?case by (simp add: s t o)
qed

lemma M165_report_output:
  assumes "MIXING_STEPPERS cfg \<le> 8"
  shows "snd (M165_report cfg forReplay m)
         = Report_Heading_Etc forReplay
           # concat (map (\<lambda>i. spec_report_line cfg (tool_table m ! i) i) [0..<MIXING_VIRTUAL_TOOLS cfg])"
  using report_loop_output [OF assms, of "[0..<MIXING_VIRTUAL_TOOLS cfg]" m "[Report_Heading_Etc forReplay]"]
  by (simp add: M165_report_def)

lemma read_loop_none:
  "\<forall>i\<in>set js. \<not> seenval p (mixing_codes cfg ! i) \<Longrightarrow> fold (M165_read cfg p) js st = st"
  by (induction js arbitrary: st) (auto simp: M165_read_def)

lemma M165_mix_none:
  assumes "\<forall>i<MIXING_STEPPERS cfg. \<not> seenval p (mixing_codes cfg ! i)"
  shows "M165_mix cfg p m = m"
proof -
  have "fold (M165_read cfg p) [0..<MIXING_STEPPERS cfg] (0, m) = (0, m)"
    using assms by (intro read_loop_none) simp
  then show ?thesis by (simp add: M165_mix_def)
qed

text \<open>Each loop of M165 updates the collector entry by entry.\<close>

lemma set_collector_loop:
  assumes "length (collector m) = MIXING_STEPPERS cfg" and "n \<le> MIXING_STEPPERS cfg"
  shows "fold (\<lambda>i m. case upd i of Some v \<Rightarrow> set_collector cfg (int i) v m | None \<Rightarrow> m) [0..<n] m
         = m\<lparr>collector := map (\<lambda>i. case (if i < n then upd i else None) of
                                        Some v \<Rightarrow> v | None \<Rightarrow> collector m ! i)
                                [0..<MIXING_STEPPERS cfg]\<rparr>"
  using assms(2)
proof (induction n)
  case 0
  have "map (\<lambda>i. collector m ! i) [0..<MIXING_STEPPERS cfg] = collector m"
    using assms(1) map_nth [of "collector m"] by simp
  then show ?case by simp
next
  case (Suc n)
  let ?N = "MIXING_STEPPERS cfg"
  let ?c = "\<lambda>k. map (\<lambda>i. case (if i < k then upd i else None) of
                              Some v \<Rightarrow> v | None \<Rightarrow> collector m ! i) [0..<?N]"
  have IH: "fold (\<lambda>i m. case upd i of Some v \<Rightarrow> set_collector cfg (int i) v m | None \<Rightarrow> m) [0..<n] m
            = m\<lparr>collector := ?c n\<rparr>"
    using Suc by simp
  have n: "n < ?N" using Suc.prems by simp
  show ?case
  proof (cases "upd n")
    case None
    have "?c (Suc n) = ?c n"
      by (rule map_cong [OF refl]) (auto simp: None less_Suc_eq)
    then show ?thesis by (simp add: IH None)
  next
    case (Some v)
    have "(?c n)[n := v] = ?c (Suc n)"
      by (rule nth_equalityI) (auto simp: Some nth_list_update less_Suc_eq)
    then show ?thesis using n by (simp add: IH Some set_collector_def)
  qed
qed

lemma read_loop_split:
  "fold (M165_read cfg p) js (b, m)
   = (fold (\<lambda>i b. if seenval p (mixing_codes cfg ! i) then SBI b i else b) js b,
      fold (\<lambda>i m. case (if seenval p (mixing_codes cfg ! i)
                          then Some (value_float p (mixing_codes cfg ! i)) else None) of
                     Some v \<Rightarrow> set_collector cfg (int i) v m | None \<Rightarrow> m) js m)"
  by (induction js arbitrary: b m) (simp_all add: M165_read_def)

lemma clear_loop_eq:
  "fold (M165_clear cfg bits) js m
   = fold (\<lambda>i m. case (if \<not> TEST bits i then Some 0 else None) of
                     Some v \<Rightarrow> set_collector cfg (int i) v m | None \<Rightarrow> m) js m"
  by (induction js arbitrary: m) (simp_all add: M165_clear_def)

lemma TEST_bit: "TEST w b \<longleftrightarrow> bit w b"
  by (simp add: TEST_def bit_iff_and_push_bit_not_eq_0)

lemma SBI_bit: "bit (SBI w b) i \<longleftrightarrow> bit w i \<or> (i = b \<and> b < 8)"
  by (auto simp: SBI_def bit_simps)

lemma mix_bits_loop:
  "n \<le> 8 \<Longrightarrow>
   bit (fold (\<lambda>i b. if seenval p (mixing_codes cfg ! i) then SBI b i else b) [0..<n] (0 :: 8 word)) i
   \<longleftrightarrow> i < n \<and> seenval p (mixing_codes cfg ! i)"
  by (induction n) (auto simp: SBI_bit less_Suc_eq)



lemma M165_mix_some:
  assumes seen: "\<exists>i<MIXING_STEPPERS cfg. seenval p (mixing_codes cfg ! i)"
    and N8: "MIXING_STEPPERS cfg \<le> 8"
    and len: "length (collector m) = MIXING_STEPPERS cfg"
  shows "M165_mix cfg p m = normalize_active cfg (m\<lparr>collector := factor_weights cfg p\<rparr>)"
proof -
  let ?N = "MIXING_STEPPERS cfg"
  let ?s = "\<lambda>i. seenval p (mixing_codes cfg ! i)"
  let ?v = "\<lambda>i. value_float p (mixing_codes cfg ! i)"
  define bits :: "8 word" where "bits = fold (\<lambda>i b. if ?s i then SBI b i else b) [0..<?N] 0"
  define c1 where "c1 = map (\<lambda>i. if ?s i then ?v i else collector m ! i) [0..<?N]"
  have bit: "bit bits i \<longleftrightarrow> i < ?N \<and> ?s i" for i
    unfolding bits_def by (rule mix_bits_loop [OF N8])
  have "bits \<noteq> 0"
  proof
    assume "bits = 0"
    then have "\<not> bit bits i" for i by simp
    with bit seen show False by blast
  qed
  moreover have "map (\<lambda>i. case (if i < ?N then if ?s i then Some (?v i) else None else None) of
                             Some v \<Rightarrow> v | None \<Rightarrow> collector m ! i) [0..<?N] = c1"
    unfolding c1_def by (rule map_cong [OF refl]) simp
  then have read: "fold (M165_read cfg p) [0..<?N] (0, m) = (bits, m\<lparr>collector := c1\<rparr>)"
    using set_collector_loop [OF len order_refl, of "\<lambda>i. if ?s i then Some (?v i) else None"]
    by (simp add: read_loop_split bits_def)
  moreover have "fold (M165_clear cfg bits) [0..<?N] (m\<lparr>collector := c1\<rparr>)
                 = m\<lparr>collector := factor_weights cfg p\<rparr>"
  proof -
    have l1: "length (collector (m\<lparr>collector := c1\<rparr>)) = ?N" by (simp add: c1_def)
    have "map (\<lambda>i. case (if i < ?N then if \<not> TEST bits i then Some 0 else None else None) of
                      Some v \<Rightarrow> v | None \<Rightarrow> c1 ! i) [0..<?N] = factor_weights cfg p"
      unfolding factor_weights_def
      by (rule map_cong [OF refl]) (simp add: TEST_bit bit c1_def)
    moreover have "collector (m\<lparr>collector := c1\<rparr>) = c1" by simp
    ultimately have "fold (M165_clear cfg bits) [0..<?N] (m\<lparr>collector := c1\<rparr>)
                     = m\<lparr>collector := c1, collector := factor_weights cfg p\<rparr>"
      using set_collector_loop [OF l1 order_refl, of "\<lambda>i. if \<not> TEST bits i then Some 0 else None"]
      unfolding clear_loop_eq by (simp only:)
    then show ?thesis by simp
  qed
  ultimately show ?thesis by (simp add: M165_mix_def)
qed


lemma M165_report_table:
  "tool_table (fst (M165_report cfg forReplay m)) = tool_table m"
  "active_tool (fst (M165_report cfg forReplay m)) = active_tool m"
  using report_loop_frame [of cfg "[0..<MIXING_VIRTUAL_TOOLS cfg]" "(m, [Report_Heading_Etc forReplay])"]
  by (simp_all add: M165_report_def)

section \<open>Claims about the report\<close>

text \<open>
  Claim C4, as stated: producing the percentage report is a pure read, and neither a row
  of the tool table nor the collector changes. The collector does change: the report
  fetches each tool's percentages with \<^verbatim>\<open>mixer.refresh_collector(100.0, i)\<close> and prints
  \<^verbatim>\<open>mixer.collector\<close>, so a collector [1, 3] holds [25, 75] after the report of the row
  [1/4, 3/4].
\<close>

theorem M165_report_counterexample:
  "collector (fst (M165_report \<lparr>MIXING_STEPPERS = 2, MIXING_VIRTUAL_TOOLS = 1, epsilon = 0\<rparr> True
      \<lparr>collector = [1, 3], tool_table = [[1/4, 3/4]], active_tool = 0\<rparr>)) = [25, 75]
   \<and> collector (fst (M165_report \<lparr>MIXING_STEPPERS = 2, MIXING_VIRTUAL_TOOLS = 1, epsilon = 0\<rparr> True
      \<lparr>collector = [1, 3], tool_table = [[1/4, 3/4]], active_tool = 0\<rparr>)) \<noteq> [1, 3]"
  by (simp add: M165_report_def report_vtool_def refresh_collector_def numeral_2_eq_2)

text \<open>
  Claim C4, amended: producing the percentage report changes no row of the tool table and
  not the active tool. The collector is the report's scratch buffer: when there is at
  least one tool, it ends up holding the percentages of the last tool.
\<close>

theorem M165_report_frame:
  "tool_table (fst (M165_report cfg forReplay m)) = tool_table m
   \<and> active_tool (fst (M165_report cfg forReplay m)) = active_tool m
   \<and> (0 < MIXING_VIRTUAL_TOOLS cfg \<longrightarrow>
        collector (fst (M165_report cfg forReplay m))
        = map (\<lambda>i. tool_table m ! (MIXING_VIRTUAL_TOOLS cfg - 1) ! i * 100) [0..<MIXING_STEPPERS cfg])"
proof -
  have "0 < MIXING_VIRTUAL_TOOLS cfg \<Longrightarrow>
        collector (fst (M165_report cfg forReplay m))
        = map (\<lambda>i. tool_table m ! (MIXING_VIRTUAL_TOOLS cfg - 1) ! i * 100) [0..<MIXING_STEPPERS cfg]"
    using report_loop_collector [of "MIXING_VIRTUAL_TOOLS cfg - 1" cfg "(m, [Report_Heading_Etc forReplay])"]
    by (simp add: M165_report_def)
  then show ?thesis
    by (simp add: M165_report_table)
qed

theorem M165_report_frame_witness:
  "tool_table (fst (M165_report \<lparr>MIXING_STEPPERS = 2, MIXING_VIRTUAL_TOOLS = 2, epsilon = 0\<rparr> True
      \<lparr>collector = [1, 3], tool_table = [[1/4, 3/4], [1/2, 1/2]], active_tool = 0\<rparr>))
     = [[1/4, 3/4], [1/2, 1/2]]
   \<and> collector (fst (M165_report \<lparr>MIXING_STEPPERS = 2, MIXING_VIRTUAL_TOOLS = 2, epsilon = 0\<rparr> True
      \<lparr>collector = [1, 3], tool_table = [[1/4, 3/4], [1/2, 1/2]], active_tool = 0\<rparr>))
     = [50, 50]"
  using M165_report_frame
      [of "\<lparr>MIXING_STEPPERS = 2, MIXING_VIRTUAL_TOOLS = 2, epsilon = 0\<rparr>" True
          "\<lparr>collector = [1, 3], tool_table = [[1/4, 3/4], [1/2, 1/2]], active_tool = 0\<rparr>"]
  by (simp add: numeral_2_eq_2)

text \<open>
  Claim C8. The report triggered by the \<^verbatim>\<open>R\<close> flag of M165 emits, after the heading call,
  one line per virtual tool for all M tools: each line is \<open>spec_report_line\<close> of that tool's
  row, that is the label \<open>V<index>:\<close> and then, per stepper letter in stepper order, the
  tool's ratio times 100 with one decimal place. What is emitted depends on the tool table
  alone: a different active tool or collector gives the same report.
\<close>

theorem M165_R_report_lines:
  assumes "seen_test p CHR ''R''" and "MIXING_STEPPERS cfg \<le> 8"
  shows "snd (M165 cfg p m)
         = Report_Heading_Etc True
           # concat (map (\<lambda>i. spec_report_line cfg (tool_table (fst (M165 cfg p m)) ! i) i)
                       [0..<MIXING_VIRTUAL_TOOLS cfg])
         \<and> snd (M165_report cfg forReplay (m\<lparr>active_tool := a, collector := c\<rparr>))
           = snd (M165_report cfg forReplay m)"
proof -
  have "tool_table (fst (M165 cfg p m)) = tool_table (M165_mix cfg p m)"
    using assms(1) by (simp add: M165_def M165_report_table)
  then have "snd (M165 cfg p m)
         = Report_Heading_Etc True
           # concat (map (\<lambda>i. spec_report_line cfg (tool_table (fst (M165 cfg p m)) ! i) i)
                       [0..<MIXING_VIRTUAL_TOOLS cfg])"
    using assms(1) M165_report_output [OF assms(2), of True "M165_mix cfg p m"]
    by (simp add: M165_def)
  moreover have "snd (M165_report cfg forReplay (m\<lparr>active_tool := a, collector := c\<rparr>))
           = snd (M165_report cfg forReplay m)"
    by (simp add: M165_report_output [OF assms(2)])
  ultimately show ?thesis by simp
qed

theorem M165_R_report_lines_witness:
  "snd (M165 \<lparr>MIXING_STEPPERS = 2, MIXING_VIRTUAL_TOOLS = 1, epsilon = 0\<rparr>
      ((\<lambda>c. None)(CHR ''A'' := Some (Value 1 1), CHR ''B'' := Some (Value 1 1),
                   CHR ''R'' := Some NoValue))
      \<lparr>collector = [1, 3], tool_table = [[1/4, 3/4]], active_tool = 0\<rparr>)
   = [Report_Heading_Etc True,
      Echo_Str ''  V'', Echo_Int 0, Echo_Str '':'',
      Echo_Str ''  A'', Echo_Float 50 1, Echo_Str '' B'', Echo_Float 50 1, Echo_Eol]"
proof -
  let ?cfg = "\<lparr>MIXING_STEPPERS = 2, MIXING_VIRTUAL_TOOLS = 1, epsilon = 0\<rparr>"
  let ?p = "(\<lambda>c. None)(CHR ''A'' := Some (Value 1 1), CHR ''B'' := Some (Value 1 1),
                          CHR ''R'' := Some NoValue)"
  let ?m = "\<lparr>collector = [1, 3], tool_table = [[1/4, 3/4]], active_tool = 0\<rparr>"
  have R: "seen_test ?p CHR ''R''" by (simp add: seen_test_def)
  have N: "MIXING_STEPPERS ?cfg \<le> 8" by simp
  have "seenval ?p (mixing_codes ?cfg ! 0)"
    by (simp add: mixing_codes_2 seenval_def)
  then have s: "\<exists>i<MIXING_STEPPERS ?cfg. seenval ?p (mixing_codes ?cfg ! i)"
    by (intro exI [of _ 0]) simp
  have f: "factor_weights ?cfg ?p = [1, 1]"
    by (simp add: factor_weights_def mixing_codes_2 upt_2 seenval_def value_float_def floatval_def)
  have mix: "M165_mix ?cfg ?p ?m = \<lparr>collector = [1, 1], tool_table = [[1/2, 1/2]], active_tool = 0\<rparr>"
    using M165_mix_some [OF s N, of ?m] f
    by (simp add: normalize_active_def mixer_normalize_def)
  have "tool_table (fst (M165 ?cfg ?p ?m)) = [[1/2, 1/2]]"
    using R mix by (simp add: M165_def M165_report_table)
  then show ?thesis
    using M165_R_report_lines [OF R N, of ?m]
    by (simp add: spec_report_line_def numeral_2_eq_2)
qed

section \<open>Claims about M165\<close>

text \<open>
  Claim C7. An M165 command in which no factor letter is given makes no commit: the mixing
  part returns the mixer as it was, and after the whole command (report included, if
  \<^verbatim>\<open>R\<close> asks for one) every row of the tool table, the active tool's among them, is
  unchanged.
\<close>

theorem M165_no_factors_no_commit:
  assumes "\<forall>i<MIXING_STEPPERS cfg. \<not> seenval p (mixing_codes cfg ! i)"
  shows "M165_mix cfg p m = m
         \<and> tool_table (fst (M165 cfg p m)) = tool_table m
         \<and> active_tool (fst (M165 cfg p m)) = active_tool m"
  using M165_mix_none [OF assms, of m]
  by (simp add: M165_def M165_report_table)

theorem M165_no_factors_no_commit_witness:
  "tool_table (fst (M165 \<lparr>MIXING_STEPPERS = 2, MIXING_VIRTUAL_TOOLS = 1, epsilon = 0\<rparr>
      ((\<lambda>c. None)(CHR ''R'' := Some NoValue))
      \<lparr>collector = [1, 3], tool_table = [[1/2, 1/2]], active_tool = 0\<rparr>))
   = [[1/2, 1/2]]"
  using M165_no_factors_no_commit
      [of "\<lparr>MIXING_STEPPERS = 2, MIXING_VIRTUAL_TOOLS = 1, epsilon = 0\<rparr>"
          "(\<lambda>c. None)(CHR ''R'' := Some NoValue)"
          "\<lparr>collector = [1, 3], tool_table = [[1/2, 1/2]], active_tool = 0\<rparr>"]
  by (simp add: seenval_def)

text \<open>
  Claim C6. An M165 command in which at least one factor letter (of the N letters mapped
  positionally to the steppers) is given with its factor sets the collector to
  \<open>factor_weights\<close>, the given factors with 0 for every letter not given, and commits that
  mix, normalized, to the active virtual tool.
\<close>

theorem M165_factors_clear_and_commit:
  assumes "\<exists>i<MIXING_STEPPERS cfg. seenval p (mixing_codes cfg ! i)"
    and "MIXING_STEPPERS cfg \<le> 8" and "mixer_wf cfg m"
  shows "M165_mix cfg p m = normalize_active cfg (m\<lparr>collector := factor_weights cfg p\<rparr>)
         \<and> tool_table (fst (M165 cfg p m))
           = tool_table (normalize_active cfg (m\<lparr>collector := factor_weights cfg p\<rparr>))"
proof -
  have "length (collector m) = MIXING_STEPPERS cfg"
    using assms(3) by (simp add: mixer_wf_def)
  then have "M165_mix cfg p m = normalize_active cfg (m\<lparr>collector := factor_weights cfg p\<rparr>)"
    by (rule M165_mix_some [OF assms(1,2)])
  then show ?thesis
    by (simp add: M165_def M165_report_table Let_def)
qed

theorem M165_factors_clear_and_commit_witness:
  "M165_mix \<lparr>MIXING_STEPPERS = 2, MIXING_VIRTUAL_TOOLS = 2, epsilon = 0\<rparr>
      ((\<lambda>c. None)(CHR ''B'' := Some (Value 4 4)))
      \<lparr>collector = [1, 3], tool_table = [[1/2, 1/2], [1/2, 1/2]], active_tool = 1\<rparr>
   = \<lparr>collector = [0, 4], tool_table = [[1/2, 1/2], [0, 1]], active_tool = 1\<rparr>"
proof -
  let ?cfg = "\<lparr>MIXING_STEPPERS = 2, MIXING_VIRTUAL_TOOLS = 2, epsilon = 0\<rparr>"
  let ?p = "(\<lambda>c. None)(CHR ''B'' := Some (Value 4 4))"
  let ?m = "\<lparr>collector = [1, 3], tool_table = [[1/2, 1/2], [1/2, 1/2]], active_tool = 1\<rparr>"
  have "seenval ?p (mixing_codes ?cfg ! 1)"
    by (simp add: mixing_codes_2 seenval_def)
  then have s: "\<exists>i<MIXING_STEPPERS ?cfg. seenval ?p (mixing_codes ?cfg ! i)"
    by (intro exI [of _ 1]) simp
  have w: "mixer_wf ?cfg ?m" by (simp add: mixer_wf_def)
  have f: "factor_weights ?cfg ?p = [0, 4]"
    by (simp add: factor_weights_def mixing_codes_2 upt_2 seenval_def value_float_def floatval_def)
  show ?thesis
    using M165_factors_clear_and_commit [OF s _ w] f
    by (simp add: normalize_active_def mixer_normalize_def)
qed

section \<open>The Step Distributor: auxiliary facts\<close>


lemma argmax_less: "xs \<noteq> [] \<Longrightarrow> argmax xs < length xs"
  by (induction xs rule: argmax.induct) (auto simp: Let_def)

lemma argmax_greatest: "i < length xs \<Longrightarrow> xs ! i \<le> xs ! argmax xs"
proof (induction xs arbitrary: i rule: argmax.induct)
  case 1
  then show ?case by simp
next
  case (2 x)
  then show ?case by simp
next
  case (3 x y ys)
  show ?case
  proof (cases i)
    case 0
    then show ?thesis by (auto simp: Let_def)
  next
    case (Suc k)
    with 3 have "(y # ys) ! k \<le> (y # ys) ! argmax (y # ys)" by simp
    with Suc show ?thesis by (auto simp: Let_def)
  qed
qed

lemma argmax_map:
  assumes "\<And>a b. f a \<le> f b \<longleftrightarrow> a \<le> b"
  shows "argmax (map f xs) = argmax xs"
proof (induction xs rule: argmax.induct)
  case 1
  show ?case by simp
next
  case (2 x)
  show ?case by simp
next
  case (3 x y ys)
  have "argmax (y # ys) < length (y # ys)" by (rule argmax_less) simp
  then have "map f (y # ys) ! argmax (y # ys) = f ((y # ys) ! argmax (y # ys))"
    by (rule nth_map)
  with 3 show ?case by (simp add: Let_def assms)
qed


text \<open>One request: which index is emitted and what happens to each accumulator.\<close>

lemma next_stepper_index:
  assumes "r \<noteq> []" and "length acc = length r"
  shows "fst (next_stepper r acc) < length r"
proof -
  have "acc \<noteq> []" using assms by auto
  then show ?thesis
    using assms argmax_less [of "map2 (+) acc r"] by (simp add: next_stepper_def Let_def)
qed

lemma next_stepper_length:
  "length acc = length r \<Longrightarrow> length (snd (next_stepper r acc)) = length r"
  by (simp add: next_stepper_def Let_def)

lemma next_stepper_nth:
  assumes "length acc = length r" and "i < length r"
  shows "snd (next_stepper r acc) ! i
         = acc ! i + r ! i - (if i = fst (next_stepper r acc) then 1 else 0)"
  using assms by (simp add: next_stepper_def Let_def nth_list_update)

lemma next_stepper_greatest:
  assumes "length acc = length r" and "i < length r"
  shows "acc ! i + r ! i
         \<le> acc ! fst (next_stepper r acc) + r ! fst (next_stepper r acc)"
proof -
  let ?a = "map2 (+) acc r"
  have l: "length ?a = length r" using assms(1) by simp
  have "?a ! i \<le> ?a ! argmax ?a"
    by (rule argmax_greatest) (simp add: assms)
  moreover have "r \<noteq> []" using assms(2) by auto
  then have "argmax ?a < length r"
    using next_stepper_index [OF _ assms(1)] by (simp add: next_stepper_def Let_def)
  ultimately show ?thesis
    using assms by (simp add: next_stepper_def Let_def)
qed

lemma next_stepper_sum:
  assumes "r \<noteq> []" and "length acc = length r"
  shows "sum_list (snd (next_stepper r acc)) = sum_list acc + sum_list r - 1"
proof -
  let ?j = "fst (next_stepper r acc)"
  let ?N = "length r"
  have j: "?j \<in> {0..<?N}" using next_stepper_index [OF assms] by simp
  have "sum_list (snd (next_stepper r acc))
        = (\<Sum>i = 0..<?N. snd (next_stepper r acc) ! i)"
    by (simp add: sum_list_sum_nth next_stepper_length [OF assms(2)])
  also have "\<dots> = (\<Sum>i = 0..<?N. acc ! i + r ! i - (if i = ?j then 1 else 0))"
    by (rule sum.cong [OF refl]) (simp add: next_stepper_nth [OF assms(2)])
  also have "\<dots> = (\<Sum>i = 0..<?N. acc ! i) + (\<Sum>i = 0..<?N. r ! i)
                  - (\<Sum>i = 0..<?N. if i = ?j then 1 else 0)"
    by (simp add: sum_subtractf sum.distrib)
  also have "(\<Sum>i = 0..<?N. if i = ?j then 1 else 0) = (1::real)"
    using j by simp
  finally show ?thesis
    using assms(2) by (simp add: sum_list_sum_nth)
qed



lemma residual_inv_armed: "residual_inv r (replicate (length r) 0)"
proof -
  have "1 / real (length r) \<le> 1"
    by (cases "length r") (simp_all add: field_simps)
  then show ?thesis by (simp add: residual_inv_def sum_list_replicate)
qed

lemma residual_inv_step:
  assumes r: "r \<noteq> []" "\<forall>x\<in>set r. 0 \<le> x" "sum_list r = 1"
    and inv: "residual_inv r acc"
  shows "residual_inv r (snd (next_stepper r acc))"
proof -
  let ?N = "length r"
  let ?j = "fst (next_stepper r acc)"
  let ?acc1 = "snd (next_stepper r acc)"
  have len: "length acc = ?N" and sum0: "sum_list acc = 0"
    and low: "\<And>i. i < ?N \<Longrightarrow> 1 / real ?N - 1 \<le> acc ! i"
    using inv by (simp_all add: residual_inv_def)
  have N: "0 < real ?N" using r(1) by simp
  have j: "?j < ?N" by (rule next_stepper_index [OF r(1) len])
  have "(\<Sum>i = 0..<?N. acc ! i + r ! i) \<le> (\<Sum>i = 0..<?N. acc ! ?j + r ! ?j)"
    by (rule sum_mono) (simp add: next_stepper_greatest [OF len])
  moreover have "(\<Sum>i = 0..<?N. acc ! i + r ! i) = 1"
    using sum0 r(3) len by (simp add: sum.distrib sum_list_sum_nth)
  ultimately have "1 \<le> real ?N * (acc ! ?j + r ! ?j)" by simp
  then have top: "1 / real ?N \<le> acc ! ?j + r ! ?j"
    using N by (simp add: field_simps)
  have "1 / real ?N - 1 \<le> ?acc1 ! i" if i: "i < ?N" for i
  proof (cases "i = ?j")
    case True
    then show ?thesis using top next_stepper_nth [OF len i] by simp
  next
    case False
    have "0 \<le> r ! i" using r(2) i by simp
    then show ?thesis using False low [OF i] next_stepper_nth [OF len i] by simp
  qed
  moreover have "sum_list ?acc1 = 0"
    using next_stepper_sum [OF r(1) len] sum0 r(3) by simp
  ultimately show ?thesis
    by (simp add: residual_inv_def next_stepper_length [OF len])
qed

lemma request_steps_Suc:
  "request_steps r acc (Suc K)
   = (fst (next_stepper r acc) # fst (request_steps r (snd (next_stepper r acc)) K),
      snd (request_steps r (snd (next_stepper r acc)) K))"
  by (simp split: prod.splits)

lemma residual_inv_run:
  assumes "r \<noteq> []" "\<forall>x\<in>set r. 0 \<le> x" "sum_list r = 1"
  shows "residual_inv r acc \<Longrightarrow> residual_inv r (snd (request_steps r acc K))"
proof (induction K arbitrary: acc)
  case 0
  then show ?case by simp
next
  case (Suc K)
  have "residual_inv r (snd (next_stepper r acc))"
    by (rule residual_inv_step [OF assms Suc.prems])
  then have "residual_inv r (snd (request_steps r (snd (next_stepper r acc)) K))"
    by (rule Suc.IH)
  then show ?case by (simp only: request_steps_Suc snd_conv)
qed

lemma request_steps_count:
  assumes "r \<noteq> []"
  shows "length acc = length r \<Longrightarrow>
         length (fst (request_steps r acc K)) = K
         \<and> (\<forall>j\<in>set (fst (request_steps r acc K)). j < length r)
         \<and> (\<forall>i<length r. snd (request_steps r acc K) ! i
               = acc ! i + real K * r ! i - real (count_list (fst (request_steps r acc K)) i))"
proof (induction K arbitrary: acc)
  case 0
  then show ?case by simp
next
  case (Suc K)
  let ?j = "fst (next_stepper r acc)"
  let ?acc1 = "snd (next_stepper r acc)"
  have l1: "length ?acc1 = length r" by (rule next_stepper_length [OF Suc.prems])
  have j: "?j < length r" by (rule next_stepper_index [OF assms Suc.prems])
  have unfold: "request_steps r acc (Suc K)
                = (?j # fst (request_steps r ?acc1 K), snd (request_steps r ?acc1 K))"
    by (rule request_steps_Suc)
  have IH: "length (fst (request_steps r ?acc1 K)) = K"
    "\<forall>j\<in>set (fst (request_steps r ?acc1 K)). j < length r"
    "\<And>i. i < length r \<Longrightarrow> snd (request_steps r ?acc1 K) ! i
        = ?acc1 ! i + real K * r ! i - real (count_list (fst (request_steps r ?acc1 K)) i)"
    using Suc.IH [OF l1] by simp_all
  have "snd (request_steps r acc (Suc K)) ! i
        = acc ! i + real (Suc K) * r ! i
          - real (count_list (fst (request_steps r acc (Suc K))) i)" if i: "i < length r" for i
    unfolding unfold using IH(3) [OF i] next_stepper_nth [OF Suc.prems i]
    by (cases "i = ?j") (auto simp: algebra_simps)
  then show ?case
    unfolding unfold using IH(1,2) j by simp
qed

lemma request_steps_append:
  "fst (request_steps r acc (K + L))
   = fst (request_steps r acc K) @ fst (request_steps r (snd (request_steps r acc K)) L)"
  by (induction K arbitrary: acc) (simp_all only: request_steps_Suc add_Suc fst_conv snd_conv append_Cons, simp)


text \<open>The scaled integer run is the distributor's run.\<close>

lemma scaled_step_length: "length acc = length w \<Longrightarrow> length (scaled_step w s acc) = length w"
  by (simp add: scaled_step_def Let_def)

lemma scaled_step_run:
  assumes "0 < s" and "length acc = length w"
  shows "snd (next_stepper (map (\<lambda>x. real_of_int x / real_of_int s) w)
                           (map (\<lambda>x. real_of_int x / real_of_int s) acc))
         = map (\<lambda>x. real_of_int x / real_of_int s) (scaled_step w s acc)"
proof -
  let ?f = "\<lambda>x. real_of_int x / real_of_int s"
  let ?a = "map2 (+) acc w"
  have add: "map2 (+) (map ?f acc) (map ?f w) = map ?f ?a"
    using assms(2) by (induction acc w rule: list_induct2) (simp_all add: add_divide_distrib)
  have mono: "?f a \<le> ?f b \<longleftrightarrow> a \<le> b" for a b
    using assms(1) by (simp add: divide_le_cancel)
  have arg: "argmax (map ?f ?a) = argmax ?a"
    by (rule argmax_map) (rule mono)
  show ?thesis
  proof (cases "?a = []")
    case True
    then have "acc = []" and "w = []" using assms(2) by auto
    then show ?thesis by (simp add: next_stepper_def scaled_step_def Let_def)
  next
    case False
    then have "argmax ?a < length ?a" by (rule argmax_less)
    then have h: "map ?f ?a ! argmax ?a - 1 = ?f (?a ! argmax ?a - s)"
      using assms(1) by (simp add: diff_divide_distrib)
    have "snd (next_stepper (map ?f w) (map ?f acc))
          = (map ?f ?a)[argmax (map ?f ?a) := map ?f ?a ! argmax (map ?f ?a) - 1]"
      by (simp only: next_stepper_def Let_def snd_conv add)
    also have "\<dots> = (map ?f ?a)[argmax ?a := ?f (?a ! argmax ?a - s)]"
      by (simp only: arg h)
    also have "\<dots> = map ?f (?a[argmax ?a := ?a ! argmax ?a - s])"
      by (simp only: map_update)
    also have "\<dots> = map ?f (scaled_step w s acc)"
      by (simp only: scaled_step_def Let_def)
    finally show ?thesis .
  qed
qed

lemma scaled_steps_run:
  assumes "0 < s"
  shows "length acc = length w \<Longrightarrow>
         snd (request_steps (map (\<lambda>x. real_of_int x / real_of_int s) w)
                            (map (\<lambda>x. real_of_int x / real_of_int s) acc) K)
         = map (\<lambda>x. real_of_int x / real_of_int s) (scaled_steps w s K acc)"
proof (induction K arbitrary: acc)
  case 0
  show ?case by simp
next
  case (Suc K)
  have "length (scaled_step w s acc) = length w"
    by (rule scaled_step_length [OF Suc.prems])
  then show ?case
    using Suc.IH [of "scaled_step w s acc"]
    by (simp only: request_steps_Suc snd_conv scaled_step_run [OF assms Suc.prems] scaled_steps.simps)
qed

lemma long_run:
  "scaled_steps [1, 1, 1, 9, 9, 57, 633, 633] 1344 568 [0, 0, 0, 0, 0, 0, 0, 0]
   = [- 776, - 776, - 776, - 264, - 264, 120, 696, 2040]"
  by code_simp




lemma distribute_residual:
  assumes "r \<noteq> []" and "i < length r"
  shows "real (delivered r K i)
         = real K * r ! i - snd (request_steps r (replicate (length r) 0) K) ! i"
  using request_steps_count [OF assms(1), of "replicate (length r) 0" K] assms(2)
  by (simp add: delivered_def distribute_def)


text \<open>A run of 568 requests for the weights 1, 1, 1, 9, 9, 57, 633, 633 (of sum 1344).\<close>

lemma ce_acc:
  "snd (request_steps (map (\<lambda>w. w / 1344) [1, 1, 1, 9, 9, 57, 633, 633 :: real]) (replicate 8 0) 568)
   = map (\<lambda>x. real_of_int x / real_of_int 1344) [- 776, - 776, - 776, - 264, - 264, 120, 696, 2040]"
proof -
  let ?w = "[1, 1, 1, 9, 9, 57, 633, 633] :: int list"
  let ?r = "map (\<lambda>w. w / 1344) [1, 1, 1, 9, 9, 57, 633, 633 :: real]"
  let ?f = "\<lambda>x. real_of_int x / real_of_int 1344"
  have r: "?r = map ?f ?w" by simp
  have z: "replicate 8 (0::real) = map ?f [0, 0, 0, 0, 0, 0, 0, 0]"
    by (simp add: eval_nat_numeral)
  have "snd (request_steps (map ?f ?w) (map ?f [0, 0, 0, 0, 0, 0, 0, 0]) 568)
        = map ?f (scaled_steps ?w 1344 568 [0, 0, 0, 0, 0, 0, 0, 0])"
    by (rule scaled_steps_run) simp_all
  then show ?thesis
    unfolding long_run r [symmetric] z [symmetric] .
qed

lemma harm_nonneg: "0 \<le> harm n"
  by (induction n) simp_all

lemma harm_mono: "m \<le> n \<Longrightarrow> harm m \<le> harm n"
  by (induction n) (auto simp: le_Suc_eq intro: order_trans)

lemma ratio_part_le:
  fixes r :: "real list"
  assumes "\<forall>x\<in>set r. 0 \<le> x" and "sum_list r = 1" and "T \<subseteq> {0..<length r}"
  shows "(\<Sum>i\<in>T. r ! i) \<le> 1"
proof -
  have "(\<Sum>i\<in>T. r ! i) \<le> (\<Sum>i\<in>{0..<length r}. r ! i)"
  proof (rule sum_mono2)
    show "finite {0..<length r}" by simp
    show "T \<subseteq> {0..<length r}" by (rule assms(3))
    show "0 \<le> r ! b" if "b \<in> {0..<length r} - T" for b
      using that assms(1) by simp
  qed
  then show ?thesis using assms(2) by (simp add: sum_list_sum_nth)
qed

text \<open>The sum of any \<open>m\<close> accumulators stays below \<open>m * (harm N - harm m)\<close>.\<close>

lemma top_sums_step:
  assumes r: "r \<noteq> []" "\<forall>x\<in>set r. 0 \<le> x" "sum_list r = 1"
    and len: "length acc = length r"
    and inv: "\<And>U. U \<subseteq> {0..<length r} \<Longrightarrow>
                (\<Sum>i\<in>U. acc ! i) \<le> real (card U) * (harm (length r) - harm (card U))"
    and T: "T \<subseteq> {0..<length r}"
  shows "(\<Sum>i\<in>T. snd (next_stepper r acc) ! i)
         \<le> real (card T) * (harm (length r) - harm (card T))"
proof -
  let ?N = "length r"
  let ?j = "fst (next_stepper r acc)"
  let ?m = "card T"
  let ?h = "harm ?N"
  have fin: "finite T" using T by (rule finite_subset) simp
  have j: "?j < ?N" by (rule next_stepper_index [OF r(1) len])
  have nth: "snd (next_stepper r acc) ! i = acc ! i + r ! i - (if i = ?j then 1 else 0)"
    if "i \<in> T" for i
    using that T by (intro next_stepper_nth [OF len]) auto
  have split: "(\<Sum>i\<in>U. acc ! i + r ! i) = (\<Sum>i\<in>U. acc ! i) + (\<Sum>i\<in>U. r ! i)" for U
    by (rule sum.distrib)
  show ?thesis
  proof (cases "?j \<in> T")
    case True
    have "(\<Sum>i\<in>T. snd (next_stepper r acc) ! i)
          = (\<Sum>i\<in>T. acc ! i + r ! i - (if i = ?j then 1 else 0))"
      by (rule sum.cong [OF refl]) (rule nth)
    also have "\<dots> = (\<Sum>i\<in>T. acc ! i) + (\<Sum>i\<in>T. r ! i) - (\<Sum>i\<in>T. if i = ?j then 1 else 0)"
      by (simp add: sum_subtractf sum.distrib)
    also have "(\<Sum>i\<in>T. if i = ?j then 1 else 0) = (1::real)"
      using True fin by simp
    finally have "(\<Sum>i\<in>T. snd (next_stepper r acc) ! i)
                  = (\<Sum>i\<in>T. acc ! i) + (\<Sum>i\<in>T. r ! i) - 1" .
    moreover have "(\<Sum>i\<in>T. r ! i) \<le> 1" by (rule ratio_part_le [OF r(2,3) T])
    ultimately show ?thesis using inv [OF T] by simp
  next
    case False
    let ?U = "insert ?j T"
    let ?s = "\<Sum>i\<in>T. acc ! i + r ! i"
    let ?x = "acc ! ?j + r ! ?j"
    have U: "?U \<subseteq> {0..<?N}" using T j by simp
    have cU: "card ?U = Suc ?m" using False fin by simp
    have eq: "(\<Sum>i\<in>T. snd (next_stepper r acc) ! i) = ?s"
      by (rule sum.cong [OF refl]) (use False nth in auto)
    have "?s \<le> (\<Sum>i\<in>T. ?x)"
      using T by (intro sum_mono next_stepper_greatest [OF len]) auto
    then have s_le: "?s \<le> real ?m * ?x" by simp
    have "(\<Sum>i\<in>?U. acc ! i + r ! i) = ?x + ?s"
      using False fin by simp
    moreover have "(\<Sum>i\<in>?U. acc ! i + r ! i)
                   \<le> real (Suc ?m) * (?h - harm (Suc ?m)) + 1"
      using inv [OF U] ratio_part_le [OF r(2,3) U] unfolding split cU by linarith
    moreover have "real (Suc ?m) * (?h - harm (Suc ?m)) + 1 = real (Suc ?m) * (?h - harm ?m)"
      by (simp add: field_simps)
    ultimately have sx: "?x + ?s \<le> real (Suc ?m) * (?h - harm ?m)" by simp
    have "real (Suc ?m) * ?s = real ?m * ?s + ?s" by (simp add: algebra_simps)
    also have "\<dots> \<le> real ?m * ?s + real ?m * ?x" using s_le by simp
    also have "\<dots> = real ?m * (?x + ?s)" by (simp add: algebra_simps)
    also have "\<dots> \<le> real ?m * (real (Suc ?m) * (?h - harm ?m))"
      by (rule mult_left_mono [OF sx]) simp
    also have "\<dots> = real (Suc ?m) * (real ?m * (?h - harm ?m))" by simp
    finally have "?s \<le> real ?m * (?h - harm ?m)"
      by (simp only: mult_le_cancel_left_pos [of "real (Suc ?m)"] of_nat_0_less_iff zero_less_Suc)
    then show ?thesis unfolding eq .
  qed
qed


lemma top_sums_run:
  assumes r: "r \<noteq> []" "\<forall>x\<in>set r. 0 \<le> x" "sum_list r = 1"
  shows "length acc = length r \<Longrightarrow>
         (\<And>U. U \<subseteq> {0..<length r} \<Longrightarrow>
             (\<Sum>i\<in>U. acc ! i) \<le> real (card U) * (harm (length r) - harm (card U))) \<Longrightarrow>
         T \<subseteq> {0..<length r} \<Longrightarrow>
         (\<Sum>i\<in>T. snd (request_steps r acc K) ! i)
         \<le> real (card T) * (harm (length r) - harm (card T))"
proof (induction K arbitrary: acc T)
  case 0
  then show ?case by simp
next
  case (Suc K)
  let ?acc1 = "snd (next_stepper r acc)"
  have l1: "length ?acc1 = length r" by (rule next_stepper_length [OF Suc.prems(1)])
  have "(\<Sum>i\<in>T. snd (request_steps r ?acc1 K) ! i)
        \<le> real (card T) * (harm (length r) - harm (card T))"
  proof (rule Suc.IH [OF l1 _ Suc.prems(3)])
    fix U assume U: "U \<subseteq> {0..<length r}"
    show "(\<Sum>i\<in>U. ?acc1 ! i) \<le> real (card U) * (harm (length r) - harm (card U))"
    proof (rule top_sums_step [OF r Suc.prems(1) _ U])
      fix V assume "V \<subseteq> {0..<length r}"
      then show "(\<Sum>i\<in>V. acc ! i) \<le> real (card V) * (harm (length r) - harm (card V))"
        by (rule Suc.prems(2))
    qed
  qed
  then show ?case by (simp only: request_steps_Suc snd_conv)
qed

lemma top_sums_armed:
  assumes "U \<subseteq> {0..<n}"
  shows "(\<Sum>i\<in>U. replicate n (0::real) ! i) \<le> real (card U) * (harm n - harm (card U))"
proof -
  have "card U \<le> card {0..<n}" by (rule card_mono [OF _ assms]) simp
  then have "harm (card U) \<le> harm n" by (intro harm_mono) simp
  moreover have "(\<Sum>i\<in>U. replicate n (0::real) ! i) = (\<Sum>i\<in>U. 0)"
    by (rule sum.cong [OF refl]) (use assms in auto)
  ultimately show ?thesis by simp
qed

lemma residual_upper:
  assumes "r \<noteq> []" "\<forall>x\<in>set r. 0 \<le> x" "sum_list r = 1" and i: "i < length r"
  shows "snd (request_steps r (replicate (length r) 0) K) ! i \<le> harm (length r) - 1"
proof -
  have "(\<Sum>k\<in>{i}. snd (request_steps r (replicate (length r) 0) K) ! k)
        \<le> real (card {i}) * (harm (length r) - harm (card {i}))"
    by (rule top_sums_run [OF assms(1-3)]) (use i in \<open>simp_all add: top_sums_armed\<close>)
  then show ?thesis by simp
qed

lemma harm_small:
  assumes "0 < n" and "n \<le> 6"
  shows "harm n - 1 \<le> 29 / 20"
proof -
  have "n \<in> {1, 2, 3, 4, 5, 6}" using assms by auto
  then show ?thesis by (elim insertE emptyE) (simp_all add: eval_nat_numeral)
qed

section \<open>Claim about the Step Distributor\<close>

text \<open>
  Claim C1, as stated: for every ratio vector that sums to 1 and every prefix of length K,
  the number of steps delivered to stepper i is \<open>round (r[i] * K)\<close> plus or minus 1. It
  fails with eight steppers: for the ratios 1, 1, 1, 9, 9, 57, 633, 633 over 1344 (all
  non-negative, of sum 1), after 568 requests the last stepper has received 266 steps,
  while \<open>round (633/1344 * 568) = 268\<close>.
\<close>

theorem distribute_counterexample:
  "sum_list (map (\<lambda>w. w / 1344) [1, 1, 1, 9, 9, 57, 633, 633 :: real]) = 1
   \<and> delivered (map (\<lambda>w. w / 1344) [1, 1, 1, 9, 9, 57, 633, 633]) 568 7 = 266
   \<and> round (map (\<lambda>w. w / 1344) [1, 1, 1, 9, 9, 57, 633, 633 :: real] ! 7 * 568) = 268"
proof -
  let ?r = "map (\<lambda>w. w / 1344) [1, 1, 1, 9, 9, 57, 633, 633 :: real]"
  have "real (delivered ?r 568 7)
        = real 568 * ?r ! 7 - snd (request_steps ?r (replicate (length ?r) 0) 568) ! 7"
    by (rule distribute_residual) simp_all
  moreover have l: "length ?r = 8" by simp
  ultimately have "real (delivered ?r 568 7)
        = real 568 * ?r ! 7
          - map (\<lambda>x. real_of_int x / real_of_int 1344)
              [- 776, - 776, - 776, - 264, - 264, 120, 696, 2040] ! 7"
    unfolding l ce_acc by (simp only:)
  then have "real (delivered ?r 568 7) = real 266" by simp
  then have d: "delivered ?r 568 7 = 266" by (simp only: of_nat_eq_iff)
  have rd: "round (?r ! 7 * 568) = 268"
    by (rule round_unique) simp_all
  have "sum_list ?r = 1" by simp
  with d rd show ?thesis by simp
qed

text \<open>
  Claim C1, amended: for every ratio vector \<open>r[0..N)\<close> of non-negative ratios that sums to
  1 and every sequence of step requests, the Step Distributor returns exactly one stepper
  index per request (the run of K requests emits K indices, each below N, and is the
  prefix of every longer run), and for any prefix of length K the number of steps
  delivered to stepper i lies between \<open>r[i]*K - (1/2 + ... + 1/N)\<close> and
  \<open>r[i]*K + (1 - 1/N)\<close>, a bound independent of K. For N up to 6 this makes it
  \<open>round (r[i]*K)\<close> plus or minus 1, as the claim states it.
\<close>

theorem distribute_bounded_error:
  assumes "r \<noteq> []" and "\<forall>x\<in>set r. 0 \<le> x" and "sum_list r = 1" and "i < length r"
  shows "length (distribute r K) = K
         \<and> (\<forall>j\<in>set (distribute r K). j < length r)
         \<and> take K (distribute r (K + L)) = distribute r K
         \<and> real K * r ! i - (harm (length r) - 1) \<le> real (delivered r K i)
         \<and> real (delivered r K i) \<le> real K * r ! i + (1 - 1 / real (length r))
         \<and> (length r \<le> 6 \<longrightarrow> \<bar>int (delivered r K i) - round (r ! i * real K)\<bar> \<le> 1)"
proof -
  let ?N = "real (length r)"
  let ?acc = "snd (request_steps r (replicate (length r) 0) K)"
  have run: "length (distribute r K) = K" "\<forall>j\<in>set (distribute r K). j < length r"
    using request_steps_count [OF assms(1), of "replicate (length r) 0" K]
    by (simp_all add: distribute_def)
  have pre: "take K (distribute r (K + L)) = distribute r K"
    using run(1) by (simp add: distribute_def request_steps_append)
  have inv: "residual_inv r ?acc"
    by (rule residual_inv_run [OF assms(1-3) residual_inv_armed])
  have lo: "1 / ?N - 1 \<le> ?acc ! i"
    using inv assms(4) by (simp add: residual_inv_def)
  have hi: "?acc ! i \<le> harm (length r) - 1"
    by (rule residual_upper [OF assms])
  have d: "real (delivered r K i) = real K * r ! i - ?acc ! i"
    by (rule distribute_residual [OF assms(1,4)])
  have b1: "real K * r ! i - (harm (length r) - 1) \<le> real (delivered r K i)"
    and b2: "real (delivered r K i) \<le> real K * r ! i + (1 - 1 / ?N)"
    using lo hi unfolding d by simp_all
  have "\<bar>int (delivered r K i) - round (r ! i * real K)\<bar> \<le> 1" if n6: "length r \<le> 6"
  proof -
    have "0 < length r" using assms(1) by simp
    then have "harm (length r) - 1 \<le> 29 / 20"
      using n6 by (rule harm_small)
    moreover have "1 - 1 / ?N \<le> 1" using assms(1) by simp
    moreover have "r ! i * real K = real K * r ! i" by simp
    ultimately have "\<bar>real (delivered r K i) - r ! i * real K\<bar> \<le> 29 / 20"
      using b1 b2 by linarith
    moreover have "\<bar>real_of_int (round (r ! i * real K)) - r ! i * real K\<bar> \<le> 1 / 2"
      by (rule of_int_round_abs_le)
    ultimately have "\<bar>real (delivered r K i) - real_of_int (round (r ! i * real K))\<bar> < 2"
      by linarith
    then have "\<bar>real_of_int (int (delivered r K i) - round (r ! i * real K))\<bar> < real_of_int 2"
      by simp
    then have "\<bar>int (delivered r K i) - round (r ! i * real K)\<bar> < 2"
      by (simp only: of_int_abs [symmetric] of_int_less_iff)
    then show ?thesis by simp
  qed
  with run pre b1 b2 show ?thesis by simp
qed

theorem distribute_bounded_error_witness:
  "length (distribute [1/4, 1/4, 1/4, 1/4] 10000) = 10000
   \<and> \<bar>int (delivered [1/4, 1/4, 1/4, 1/4] 10000 3) - 2500\<bar> \<le> 1
   \<and> \<bar>int (delivered [3/10, 7/10] 10000 0) - 3000\<bar> \<le> 1
   \<and> \<bar>int (delivered [3/10, 7/10] 10000 1) - 7000\<bar> \<le> 1"
  using distribute_bounded_error [of "[1/4, 1/4, 1/4, 1/4]" 3 10000 0]
    distribute_bounded_error [of "[3/10, 7/10]" 0 10000 0]
    distribute_bounded_error [of "[3/10, 7/10]" 1 10000 0]
  by simp

end
